theory Spec2Isabelle
  imports Main "HOL-Library.Word" "HOL-Library.AList"
begin

section \<open>Data model of the commit log (internal/log)\<close>

type_synonym byte = "8 word"
type_synonym uint32 = "32 word"
type_synonym uint64 = "64 word"

text \<open>
  Errors are values.  \<open>EOF\<close> is \<open>io.EOF\<close>, \<open>ErrOffsetOutOfRange\<close> is
  \<open>api.ErrOffsetOutOfRange{Offset}\<close>, \<open>ErrInvalid\<close> stands for the operating system's
  refusals (a negative length or offset, a mapping of length zero), \<open>ErrWriter\<close> is the
  sticky error of a \<open>bufio.Writer\<close>, \<open>ErrCodec\<close> a failure of the record codec, \<open>ErrSyntax\<close> and
  \<open>ErrRange\<close> the two errors of \<open>strconv.ParseUint\<close>, \<open>ErrNotExist\<close> the
  refusal to unlink a file that is not there, and
  \<open>Panic\<close> a Go run-time panic (slice or index out of range).
\<close>

datatype error =
    EOF
  | ErrOffsetOutOfRange uint64
  | ErrInvalid
  | ErrWriter nat
  | ErrCodec
  | ErrSyntax
  | ErrRange
  | ErrNotExist
  | Panic

text \<open>\<open>api.Record\<close>: an opaque payload and the offset the log assigns.\<close>

record Record =
  Value :: "byte list"
  Offset :: uint64

text \<open>
  \<open>proto.Marshal\<close> and \<open>proto.Unmarshal\<close> belong to an external library; the log only
  calls them, so they are parameters of the model.
\<close>

record codec =
  Marshal :: "Record \<Rightarrow> error + byte list"
  Unmarshal :: "byte list \<Rightarrow> error + Record"

text \<open>config.go: the nested struct \<open>Config.Segment\<close>, flattened.\<close>

record Config =
  MaxStoreBytes :: uint64
  MaxIndexBytes :: uint64
  InitialOffset :: uint64

subsection \<open>Big-endian encoding (\<open>enc = binary.BigEndian\<close>)\<close>

fun put_be :: "nat \<Rightarrow> nat \<Rightarrow> byte list" where
  "put_be 0 v = []"
| "put_be (Suc k) v = put_be k (v div 256) @ [word_of_nat (v mod 256)]"

definition get_be :: "byte list \<Rightarrow> nat" where
  "get_be bs = foldl (\<lambda>a b. a * 256 + unat b) 0 bs"

definition PutUint64 :: "uint64 \<Rightarrow> byte list" where
  "PutUint64 v = put_be 8 (unat v)"

definition Uint64 :: "byte list \<Rightarrow> uint64" where
  "Uint64 bs = word_of_nat (get_be bs)"

definition PutUint32 :: "uint32 \<Rightarrow> byte list" where
  "PutUint32 v = put_be 4 (unat v)"

definition Uint32 :: "byte list \<Rightarrow> uint32" where
  "Uint32 bs = word_of_nat (get_be bs)"

text \<open>The Go slice expression \<open>xs[lo:hi]\<close>, used where the bounds have been checked.\<close>

definition slice :: "'a list \<Rightarrow> nat \<Rightarrow> nat \<Rightarrow> 'a list" where
  "slice xs lo hi = take (hi - lo) (drop lo xs)"

subsection \<open>Store (segment.go, second part: the length-prefixed file)\<close>

definition lenWidth :: nat where
  "lenWidth = 8"

text \<open>
  \<open>file_s\<close> is what the file holds, \<open>buf_s\<close> the bytes the \<open>bufio.Writer\<close> has accepted
  and not yet written, \<open>err_s\<close> the writer's sticky error, \<open>size_s\<close> the field \<open>size\<close>.
  The writer's own flush when its buffer fills only moves bytes from \<open>buf_s\<close> to the
  end of \<open>file_s\<close> (the file is opened with \<open>O_APPEND\<close>); the model keeps them in
  \<open>buf_s\<close> until \<open>Flush\<close> is called.
\<close>

record store =
  file_s :: "byte list"
  buf_s :: "byte list"
  err_s :: "error option"
  size_s :: uint64

definition newStore :: "byte list \<Rightarrow> store" where
  "newStore f = \<lparr>file_s = f, buf_s = [], err_s = None, size_s = word_of_nat (length f)\<rparr>"

definition bufio_Write :: "byte list \<Rightarrow> store \<Rightarrow> (error + nat) \<times> store" where
  "bufio_Write p s =
     (case err_s s of
        Some e \<Rightarrow> (Inl e, s)
      | None \<Rightarrow> (Inr (length p), s\<lparr>buf_s := buf_s s @ p\<rparr>))"

definition bufio_Flush :: "store \<Rightarrow> (error + unit) \<times> store" where
  "bufio_Flush s =
     (case err_s s of
        Some e \<Rightarrow> (Inl e, s)
      | None \<Rightarrow> (Inr (), s\<lparr>file_s := file_s s @ buf_s s, buf_s := []\<rparr>))"

text \<open>
  \<open>os.File.ReadAt\<close> into a buffer of \<open>n\<close> bytes at the signed offset \<open>off\<close>: a negative
  offset is refused, a buffer of length zero reads nothing, fewer than \<open>n\<close> bytes
  available is \<open>io.EOF\<close>.
\<close>

definition File_ReadAt :: "nat \<Rightarrow> uint64 \<Rightarrow> byte list \<Rightarrow> error + byte list" where
  "File_ReadAt n off f =
     (if sint off < 0 then Inl ErrInvalid
      else if n = 0 then Inr []
      else if unat off + n \<le> length f then Inr (slice f (unat off) (unat off + n))
      else Inl EOF)"

definition store_Append :: "byte list \<Rightarrow> store \<Rightarrow> (error + uint64 \<times> uint64) \<times> store" where
  "store_Append p s =
     (let pos = size_s s in
      case bufio_Write (PutUint64 (word_of_nat (length p))) s of
        (Inl e, s1) \<Rightarrow> (Inl e, s1)
      | (Inr _, s1) \<Rightarrow>
          (case bufio_Write p s1 of
             (Inl e, s2) \<Rightarrow> (Inl e, s2)
           | (Inr w, s2) \<Rightarrow>
               (let w' = w + lenWidth in
                (Inr (word_of_nat w', pos), s2\<lparr>size_s := size_s s2 + word_of_nat w'\<rparr>))))"

text \<open>
  \<open>store.Read\<close> flushes the writer, reads the eight bytes of the length at \<open>pos\<close> and
  then that many bytes behind them.  (The limit of \<open>make\<close> on the size of an
  allocation is not modelled.)
\<close>

definition store_Read :: "uint64 \<Rightarrow> store \<Rightarrow> (error + byte list) \<times> store" where
  "store_Read pos s =
     (case bufio_Flush s of
        (Inl e, s1) \<Rightarrow> (Inl e, s1)
      | (Inr _, s1) \<Rightarrow>
          (case File_ReadAt lenWidth pos (file_s s1) of
             Inl e \<Rightarrow> (Inl e, s1)
           | Inr len \<Rightarrow>
               (File_ReadAt (unat (Uint64 len)) (pos + word_of_nat lenWidth) (file_s s1), s1)))"

subsection \<open>Index (index.go, first part: the memory-mapped file)\<close>

definition offWidth :: uint64 where
  "offWidth = 4"

definition posWidth :: uint64 where
  "posWidth = 8"

definition entWidth :: uint64 where
  "entWidth = offWidth + posWidth"

text \<open>
  The mapping is shared, so \<open>mmap\<close> is the content of the index file itself; its
  length is fixed when the file is mapped.  \<open>size_i\<close> is the field \<open>size\<close>.
\<close>

record index =
  mmap :: "byte list"
  size_i :: uint64

text \<open>\<open>os.Truncate(name, n)\<close> on a file holding \<open>f\<close>: cut to \<open>n\<close> bytes or pad with zeros.\<close>

definition os_Truncate :: "byte list \<Rightarrow> nat \<Rightarrow> byte list" where
  "os_Truncate f n = take n f @ replicate (n - length f) 0"

text \<open>
  \<open>newIndex\<close>: the length is passed as \<open>int64(c.Segment.MaxIndexBytes)\<close>, and a negative
  length is refused by the system; so is a mapping of an empty file.
\<close>

definition newIndex :: "byte list \<Rightarrow> Config \<Rightarrow> error + index" where
  "newIndex f c =
     (let sz = word_of_nat (length f) in
      if sint (MaxIndexBytes c) < 0 then Inl ErrInvalid
      else
        (let f' = os_Truncate f (unat (MaxIndexBytes c)) in
         if length f' = 0 then Inl ErrInvalid
         else Inr \<lparr>mmap = f', size_i = sz\<rparr>))"

text \<open>\<open>index.Read\<close>; the argument is an \<open>int64\<close>, so \<open>-1\<close> is the word of all ones.\<close>

definition index_Read :: "uint64 \<Rightarrow> index \<Rightarrow> error + uint32 \<times> uint64" where
  "index_Read offset i =
     (if size_i i = 0 then Inl EOF
      else
        (let out = (if offset = - 1 then ucast (size_i i div entWidth - 1) else ucast offset) :: uint32;
             pos = (ucast out :: uint64) * entWidth
         in if size_i i < pos + entWidth then Inl EOF
            else if length (mmap i) < unat (pos + entWidth) then Inl Panic
            else Inr (Uint32 (slice (mmap i) (unat pos) (unat (pos + offWidth))),
                      Uint64 (slice (mmap i) (unat (pos + offWidth)) (unat (pos + entWidth))))))"

definition index_Write :: "uint32 \<Rightarrow> uint64 \<Rightarrow> index \<Rightarrow> error + index" where
  "index_Write off pos i =
     (if word_of_nat (length (mmap i)) < size_i i + entWidth then Inl EOF
      else if length (mmap i) < unat (size_i i) + unat entWidth then Inl Panic
      else Inr (i\<lparr>mmap := take (unat (size_i i)) (mmap i) @ PutUint32 off @ PutUint64 pos
                           @ drop (unat (size_i i) + unat entWidth) (mmap i),
                 size_i := size_i i + entWidth\<rparr>))"

subsection \<open>Segment (segment.go)\<close>

record segment =
  store :: store
  index :: index
  baseOffset :: uint64
  nextOffset :: uint64
  config :: Config

text \<open>
  \<open>newSegment\<close>, given what the two files \<open><baseOffset>.store\<close> and
  \<open><baseOffset>.index\<close> hold when they are opened (nothing, when \<open>O_CREATE\<close> makes
  them).  Any error of \<open>index.Read(-1)\<close> means an empty index; a panic goes on.
\<close>

definition newSegment :: "byte list \<Rightarrow> byte list \<Rightarrow> uint64 \<Rightarrow> Config \<Rightarrow> error + segment" where
  "newSegment storeFile indexFile baseOffset' c =
     (case newIndex indexFile c of
        Inl e \<Rightarrow> Inl e
      | Inr idx \<Rightarrow>
          (case index_Read (- 1) idx of
             Inl Panic \<Rightarrow> Inl Panic
           | Inl _ \<Rightarrow>
               Inr \<lparr>store = newStore storeFile, index = idx, baseOffset = baseOffset',
                    nextOffset = baseOffset', config = c\<rparr>
           | Inr (off, _) \<Rightarrow>
               Inr \<lparr>store = newStore storeFile, index = idx, baseOffset = baseOffset',
                    nextOffset = baseOffset' + ucast off + 1, config = c\<rparr>))"

text \<open>
  \<open>segment.Append\<close> returns the offset and the segment as it is afterwards.  (It also
  stores the offset into the caller's record before marshalling it.)
\<close>

definition segment_Append :: "codec \<Rightarrow> Record \<Rightarrow> segment \<Rightarrow> (error + uint64) \<times> segment" where
  "segment_Append cd record s =
     (let cur = nextOffset s in
      case Marshal cd (record\<lparr>Offset := cur\<rparr>) of
        Inl e \<Rightarrow> (Inl e, s)
      | Inr p \<Rightarrow>
          (case store_Append p (store s) of
             (Inl e, st) \<Rightarrow> (Inl e, s\<lparr>store := st\<rparr>)
           | (Inr (_, pos), st) \<Rightarrow>
               (case index_Write (ucast (nextOffset s - baseOffset s)) pos (index s) of
                  Inl e \<Rightarrow> (Inl e, s\<lparr>store := st\<rparr>)
                | Inr ix \<Rightarrow>
                    (Inr cur, s\<lparr>store := st, index := ix, nextOffset := nextOffset s + 1\<rparr>))))"

definition segment_Read :: "codec \<Rightarrow> uint64 \<Rightarrow> segment \<Rightarrow> (error + Record) \<times> segment" where
  "segment_Read cd off s =
     (let indexOffset = off - baseOffset s in
      case index_Read indexOffset (index s) of
        Inl e \<Rightarrow> (Inl e, s)
      | Inr (_, pos) \<Rightarrow>
          (case store_Read pos (store s) of
             (Inl e, st) \<Rightarrow> (Inl e, s\<lparr>store := st\<rparr>)
           | (Inr p, st) \<Rightarrow> (Unmarshal cd p, s\<lparr>store := st\<rparr>)))"

definition IsMaxed :: "segment \<Rightarrow> bool" where
  "IsMaxed s \<longleftrightarrow>
     size_s (store s) \<ge> MaxStoreBytes (config s) \<or> size_i (index s) \<ge> MaxIndexBytes (config s)"

subsection \<open>File names: \<open>fmt.Sprintf("%d%s", ...)\<close>, \<open>path.Ext\<close>, \<open>strings.TrimSuffix\<close>, \<open>strconv.ParseUint\<close>\<close>

fun showDec :: "nat \<Rightarrow> string" where
  "showDec n =
     (if n < 10 then [''0123456789'' ! n]
      else showDec (n div 10) @ [''0123456789'' ! (n mod 10)])"

declare showDec.simps [simp del]

definition storeName :: "uint64 \<Rightarrow> string" where
  "storeName off = showDec (unat off) @ ''.store''"

definition indexName :: "uint64 \<Rightarrow> string" where
  "indexName off = showDec (unat off) @ ''.index''"

text \<open>
  \<open>path.Ext\<close> walks back from the end of the name to the last dot of its last
  slash-separated element; \<open>ext_scan\<close> is that loop on the reversed name.
\<close>

fun ext_scan :: "string \<Rightarrow> string \<Rightarrow> string" where
  "ext_scan [] acc = []"
| "ext_scan (c # cs) acc =
     (if c = CHR ''/'' then []
      else if c = CHR ''.'' then c # acc
      else ext_scan cs (c # acc))"

definition path_Ext :: "string \<Rightarrow> string" where
  "path_Ext p = ext_scan (rev p) []"

definition TrimSuffix :: "string \<Rightarrow> string \<Rightarrow> string" where
  "TrimSuffix s suffix =
     (if length suffix \<le> length s \<and> drop (length s - length suffix) s = suffix
      then take (length s - length suffix) s else s)"

text \<open>
  \<open>strconv.ParseUint(s, 10, 0)\<close>: the value it returns together with its error.  A
  character that is not a decimal digit gives \<open>(0, syntax error)\<close>, an overflow gives
  \<open>(2^64 - 1, range error)\<close> at once.
\<close>

fun parse_loop :: "uint64 \<Rightarrow> string \<Rightarrow> uint64 \<times> error option" where
  "parse_loop n [] = (n, None)"
| "parse_loop n (c # cs) =
     (if (of_char CHR ''0'' :: nat) \<le> of_char c \<and> (of_char c :: nat) \<le> of_char CHR ''9'' then
        (let d = (of_char c - of_char CHR ''0'' :: nat) in
         if n \<ge> (- 1) div 10 + 1 then (- 1, Some ErrRange)
         else
           (let n' = n * 10; n1 = n' + word_of_nat d in
            if n1 < n' then (- 1, Some ErrRange) else parse_loop n1 cs))
      else (0, Some ErrSyntax))"

definition ParseUint :: "string \<Rightarrow> uint64 \<times> error option" where
  "ParseUint s = (if s = [] then (0, Some ErrSyntax) else parse_loop 0 s)"

subsection \<open>\<open>slices.SortFunc\<close>\<close>

text \<open>
  The standard library sorts a slice of at most twelve elements by insertion
  (\<open>insertionSortCmpFunc\<close>): each element moves left while the comparison with its left
  neighbour is negative.  \<open>ins_left\<close> works on the reversed prefix.  Longer slices go
  through the library's pattern-defeating quicksort, which is a parameter here.
\<close>

fun ins_left :: "('a \<Rightarrow> 'a \<Rightarrow> int) \<Rightarrow> 'a \<Rightarrow> 'a list \<Rightarrow> 'a list" where
  "ins_left cmp x [] = [x]"
| "ins_left cmp x (y # ys) = (if cmp x y < 0 then y # ins_left cmp x ys else x # y # ys)"

definition insertionSortCmpFunc :: "('a \<Rightarrow> 'a \<Rightarrow> int) \<Rightarrow> 'a list \<Rightarrow> 'a list" where
  "insertionSortCmpFunc cmp xs = rev (foldl (\<lambda>acc x. ins_left cmp x acc) [] xs)"

type_synonym sorter = "(uint64 \<Rightarrow> uint64 \<Rightarrow> int) \<Rightarrow> uint64 list \<Rightarrow> uint64 list"

definition slices_SortFunc :: "sorter \<Rightarrow> (uint64 \<Rightarrow> uint64 \<Rightarrow> int) \<Rightarrow> uint64 list \<Rightarrow> uint64 list" where
  "slices_SortFunc pdq cmp xs =
     (if length xs \<le> 12 then insertionSortCmpFunc cmp xs else pdq cmp xs)"

subsection \<open>Log (index.go, second part)\<close>

text \<open>
  \<open>Dir\<close> is the directory: file names with what each file held when it was last
  opened or created, in the order \<open>os.ReadDir\<close> lists them.  A file that a segment
  has open lives on in that segment's \<open>store\<close> and \<open>index\<close>.  \<open>activeSegment\<close> is a
  pointer into \<open>segments\<close>, modelled as a position of the list.
\<close>

record Log =
  Dir :: "(string \<times> byte list) list"
  Config :: Config
  activeSegment :: nat
  segments :: "segment list"

definition openFile :: "(string \<times> byte list) list \<Rightarrow> string \<Rightarrow> byte list" where
  "openFile d name = (case map_of d name of None \<Rightarrow> [] | Some f \<Rightarrow> f)"

text \<open>
  \<open>Log.newSegment\<close>: both files are opened with \<open>O_CREATE\<close>, and \<open>newIndex\<close> resizes
  the index file on disk before it is mapped.
\<close>

definition Log_newSegment :: "uint64 \<Rightarrow> Log \<Rightarrow> error + Log" where
  "Log_newSegment offset l =
     (case newSegment (openFile (Dir l) (storeName offset)) (openFile (Dir l) (indexName offset))
             offset (Config l) of
        Inl e \<Rightarrow> Inl e
      | Inr s \<Rightarrow>
          Inr (l\<lparr>Dir := AList.update (indexName offset) (mmap (index s))
                          (AList.update (storeName offset) (file_s (store s)) (Dir l)),
                 segments := segments l @ [s],
                 activeSegment := length (segments l)\<rparr>))"

text \<open>
  The loop of \<open>Log.setup\<close> over the sorted base offsets: one segment for the element at
  \<open>i\<close>, then \<open>i\<close> is advanced twice.
\<close>

fun setup_loop :: "uint64 list \<Rightarrow> Log \<Rightarrow> error + Log" where
  "setup_loop [] l = Inr l"
| "setup_loop (b # bs) l =
     (case Log_newSegment b l of
        Inl e \<Rightarrow> Inl e
      | Inr l' \<Rightarrow> setup_loop (drop 1 bs) l')"

definition Log_setup :: "sorter \<Rightarrow> Log \<Rightarrow> error + Log" where
  "Log_setup pdq l =
     (let files = map fst (Dir l);
          baseOffsets = map (\<lambda>name. fst (ParseUint (TrimSuffix name (path_Ext name)))) files;
          sorted' = slices_SortFunc pdq (\<lambda>i j. sint (i - j)) baseOffsets
      in case setup_loop sorted' l of
           Inl e \<Rightarrow> Inl e
         | Inr l1 \<Rightarrow>
             (case (if segments l1 = [] then Log_newSegment (InitialOffset (Config l1)) l1
                    else Inr l1) of
                Inl e \<Rightarrow> Inl e
              | Inr l2 \<Rightarrow> Inr (l2\<lparr>activeSegment := length (segments l2) - 1\<rparr>)))"

definition NewLog :: "sorter \<Rightarrow> (string \<times> byte list) list \<Rightarrow> Config \<Rightarrow> error + Log" where
  "NewLog pdq dir c =
     (let c1 = (if MaxStoreBytes c = 0 then c\<lparr>MaxStoreBytes := 1024\<rparr> else c);
          c2 = (if MaxIndexBytes c1 = 0 then c1\<lparr>MaxIndexBytes := 1024\<rparr> else c1)
      in Log_setup pdq \<lparr>Dir = dir, Config = c2, activeSegment = 0, segments = []\<rparr>)"

text \<open>
  \<open>Log.Append\<close> returns both an offset and an error; the error is \<open>None\<close> for \<open>nil\<close>.
  When the roll fails the offset is still returned, next to the error.
\<close>

definition Log_Append :: "codec \<Rightarrow> Record \<Rightarrow> Log \<Rightarrow> (uint64 \<times> error option) \<times> Log" where
  "Log_Append cd record l =
     (if activeSegment l \<ge> length (segments l) then ((0, Some Panic), l)
      else
        (case segment_Append cd record (segments l ! activeSegment l) of
           (Inl e, s') \<Rightarrow> ((0, Some e), l\<lparr>segments := (segments l)[activeSegment l := s']\<rparr>)
         | (Inr off, s') \<Rightarrow>
             (let l1 = l\<lparr>segments := (segments l)[activeSegment l := s']\<rparr> in
              if IsMaxed s' then
                (case Log_newSegment (off + 1) l1 of
                   Inl e \<Rightarrow> ((off, Some e), l1)
                 | Inr l2 \<Rightarrow> ((off, None), l2))
              else ((off, None), l1))))"

text \<open>The scan of \<open>Log.Read\<close>: the first segment that covers the offset.\<close>

fun find_segment :: "uint64 \<Rightarrow> segment list \<Rightarrow> nat \<Rightarrow> nat option" where
  "find_segment offset [] k = None"
| "find_segment offset (s # ss) k =
     (if baseOffset s \<le> offset \<and> offset < nextOffset s then Some k
      else find_segment offset ss (Suc k))"

definition Log_Read :: "codec \<Rightarrow> uint64 \<Rightarrow> Log \<Rightarrow> (error + Record) \<times> Log" where
  "Log_Read cd offset l =
     (case find_segment offset (segments l) 0 of
        None \<Rightarrow> (Inl (ErrOffsetOutOfRange offset), l)
      | Some k \<Rightarrow>
          (if nextOffset (segments l ! k) \<le> offset then (Inl (ErrOffsetOutOfRange offset), l)
           else
             (case segment_Read cd offset (segments l ! k) of
                (r, s') \<Rightarrow> (r, l\<lparr>segments := (segments l)[k := s']\<rparr>))))"

definition LowestOffset :: "Log \<Rightarrow> error + uint64" where
  "LowestOffset l = (case segments l of [] \<Rightarrow> Inl Panic | s # _ \<Rightarrow> Inr (baseOffset s))"

definition HighestOffset :: "Log \<Rightarrow> error + uint64" where
  "HighestOffset l =
     (if segments l = [] then Inl Panic
      else
        (let off = nextOffset (segments l ! (length (segments l) - 1)) in
         if off = 0 then Inr 0 else Inr (off - 1)))"

text \<open>
  Closing and removing a segment (segment.go, \<open>index.Close\<close>, \<open>store.Close\<close>), on the
  directory.  \<open>index.Close\<close> resizes the index file to \<open>size\<close>, passed as an
  \<open>int64\<close>, so a negative length is refused; \<open>store.Close\<close> flushes the writer.  A
  file that has been unlinked has no name under which its content would show.
\<close>

definition write_back :: "(string \<times> byte list) list \<Rightarrow> string \<Rightarrow> byte list \<Rightarrow> (string \<times> byte list) list" where
  "write_back d name f = (if map_of d name = None then d else AList.update name f d)"

definition index_Close :: "index \<Rightarrow> error + byte list" where
  "index_Close i =
     (if sint (size_i i) < 0 then Inl ErrInvalid
      else Inr (os_Truncate (mmap i) (unat (size_i i))))"

definition store_Close :: "store \<Rightarrow> error + byte list" where
  "store_Close st =
     (case bufio_Flush st of (Inl e, _) \<Rightarrow> Inl e | (Inr _, st1) \<Rightarrow> Inr (file_s st1))"

definition segment_Close ::
  "segment \<Rightarrow> (string \<times> byte list) list \<Rightarrow> error option \<times> (string \<times> byte list) list" where
  "segment_Close s d =
     (case index_Close (index s) of
        Inl e \<Rightarrow> (Some e, d)
      | Inr f \<Rightarrow>
          (let d1 = write_back d (indexName (baseOffset s)) f in
           case store_Close (store s) of
             Inl e \<Rightarrow> (Some e, d1)
           | Inr g \<Rightarrow> (None, write_back d1 (storeName (baseOffset s)) g)))"

text \<open>\<open>os.Remove\<close>: unlinking a name that the directory does not hold is an error.\<close>

definition os_Remove ::
  "string \<Rightarrow> (string \<times> byte list) list \<Rightarrow> error option \<times> (string \<times> byte list) list" where
  "os_Remove name d =
     (if map_of d name = None then (Some ErrNotExist, d) else (None, AList.delete name d))"

text \<open>\<open>segment.Remove\<close>: close, unlink the index file, unlink the store file.\<close>

definition segment_Remove ::
  "segment \<Rightarrow> (string \<times> byte list) list \<Rightarrow> error option \<times> (string \<times> byte list) list" where
  "segment_Remove s d =
     (case segment_Close s d of
        (Some e, d1) \<Rightarrow> (Some e, d1)
      | (None, d1) \<Rightarrow>
          (case os_Remove (indexName (baseOffset s)) d1 of
             (Some e, d2) \<Rightarrow> (Some e, d2)
           | (None, d2) \<Rightarrow> os_Remove (storeName (baseOffset s)) d2))"

text \<open>
  The loop of \<open>Log.Truncate\<close>: the error that stopped it (if any), the segments kept
  so far, and the directory after the removals.
\<close>

fun truncate_loop ::
  "uint64 \<Rightarrow> segment list \<Rightarrow> segment list \<Rightarrow> (string \<times> byte list) list
     \<Rightarrow> error option \<times> segment list \<times> (string \<times> byte list) list" where
  "truncate_loop lowest [] kept d = (None, kept, d)"
| "truncate_loop lowest (s # ss) kept d =
     (if nextOffset s \<le> lowest then
        (case segment_Remove s d of
           (Some e, d1) \<Rightarrow> (Some e, kept, d1)
         | (None, d1) \<Rightarrow> truncate_loop lowest ss kept d1)
      else truncate_loop lowest ss (kept @ [s]) d)"

text \<open>
  \<open>Log.Truncate\<close> returns its error (\<open>None\<close> for \<open>nil\<close>) and the log as it is
  afterwards.  When a removal fails, \<open>l.segments\<close> has not been assigned yet.  When
  no segment is kept, \<open>l.segments\<close> is already \<open>nil\<close> when indexing it at
  \<open>len(l.segments)-1\<close> panics.
\<close>

definition Truncate :: "uint64 \<Rightarrow> Log \<Rightarrow> error option \<times> Log" where
  "Truncate lowest l =
     (case truncate_loop lowest (segments l) [] (Dir l) of
        (Some e, _, d) \<Rightarrow> (Some e, l\<lparr>Dir := d\<rparr>)
      | (None, segs, d) \<Rightarrow>
          (if segs = [] then (Some Panic, l\<lparr>Dir := d, segments := []\<rparr>)
           else (None, l\<lparr>Dir := d, segments := segs, activeSegment := length segs - 1\<rparr>)))"

subsection \<open>Concrete instances\<close>

text \<open>
  A sample codec for the concrete instances below: the offset in eight bytes, then
  the payload; a record whose payload is longer than 255 bytes is refused.
\<close>

definition sample_codec :: codec where
  "sample_codec =
     \<lparr>Marshal = (\<lambda>r. if length (Value r) > 255 then Inl ErrCodec
                        else Inr (PutUint64 (Offset r) @ Value r)),
      Unmarshal = (\<lambda>bs. if length bs < 8 then Inl ErrCodec
                         else Inr \<lparr>Value = drop 8 bs, Offset = Uint64 (take 8 bs)\<rparr>)\<rparr>"

definition no_pdq :: sorter where
  "no_pdq cmp xs = xs"

definition sample_config :: "uint64 \<Rightarrow> uint64 \<Rightarrow> Config" where
  "sample_config maxIndex initial =
     \<lparr>MaxStoreBytes = 1024, MaxIndexBytes = maxIndex, InitialOffset = initial\<rparr>"

text \<open>Sequencing of a fallible step with a continuation.\<close>

definition and_then :: "error + 'a \<Rightarrow> ('a \<Rightarrow> 'b) \<Rightarrow> error + 'b" where
  "and_then r f = (case r of Inl e \<Rightarrow> Inl e | Inr x \<Rightarrow> Inr (f x))"

text \<open>The log that \<open>NewLog\<close> builds in an empty directory (see \<open>NewLog_empty_dir\<close>).\<close>

definition fresh_log :: "Config \<Rightarrow> Log" where
  "fresh_log c =
     \<lparr>Dir = [(storeName (InitialOffset c), []),
             (indexName (InitialOffset c), replicate (unat (MaxIndexBytes c)) 0)],
      Config = c, activeSegment = 0,
      segments = [\<lparr>store = newStore [],
                   index = \<lparr>mmap = replicate (unat (MaxIndexBytes c)) 0, size_i = 0\<rparr>,
                   baseOffset = InitialOffset c, nextOffset = InitialOffset c, config = c\<rparr>]\<rparr>"


definition sample_record :: "nat \<Rightarrow> Record" where
  "sample_record n = \<lparr>Value = replicate n 7, Offset = 99\<rparr>"

text \<open>
  One append to a fresh log whose index holds a single entry: the append fills the
  segment \<open>[0, 1)\<close> and rolls to the empty segment \<open>[1, 1)\<close>.
\<close>

definition sample_log :: Log where
  "sample_log = snd (Log_Append sample_codec (sample_record 2) (fresh_log (sample_config 12 0)))"

definition sample_log2 :: Log where
  "sample_log2 = snd (Log_Append sample_codec (sample_record 1) sample_log)"

section \<open>Well-formed logs\<close>

text \<open>A segment covers the offsets from \<open>baseOffset\<close> up to, not including, \<open>nextOffset\<close>.\<close>

definition covers :: "segment \<Rightarrow> uint64 \<Rightarrow> bool" where
  "covers s off \<longleftrightarrow> baseOffset s \<le> off \<and> off < nextOffset s"

fun contiguous :: "segment list \<Rightarrow> bool" where
  "contiguous [] = True"
| "contiguous [s] = True"
| "contiguous (s # t # ss) = (baseOffset t = nextOffset s \<and> contiguous (t # ss))"

text \<open>Every file name of the directory is the name of a segment file with a base offset up to \<open>b\<close>.\<close>

definition names_below :: "(string \<times> byte list) list \<Rightarrow> uint64 \<Rightarrow> bool" where
  "names_below d b \<longleftrightarrow>
     (\<forall>name \<in> fst ` set d. \<exists>b'. b' \<le> b \<and> (name = storeName b' \<or> name = indexName b'))"

text \<open>
  The shape of a log: the active segment is the last one, no segment ends before it
  begins, each segment begins where its predecessor ends, and the directory holds
  segment files only, none beyond the active segment.
\<close>

definition shape_inv :: "Log \<Rightarrow> bool" where
  "shape_inv l \<longleftrightarrow>
     segments l \<noteq> [] \<and>
     activeSegment l = length (segments l) - 1 \<and>
     list_all (\<lambda>s. baseOffset s \<le> nextOffset s) (segments l) \<and>
     contiguous (segments l) \<and>
     names_below (Dir l) (baseOffset (last (segments l)))"

text \<open>What the store holds: the file and, behind it, the bytes still in the writer.\<close>

definition content :: "store \<Rightarrow> byte list" where
  "content st = file_s st @ buf_s st"

text \<open>
  Entry \<open>j\<close> of the index \<open>m\<close> points at a complete length-prefixed record of the
  store content \<open>c\<close>, and the record decodes.
\<close>

definition entry_ok :: "codec \<Rightarrow> byte list \<Rightarrow> byte list \<Rightarrow> nat \<Rightarrow> bool" where
  "entry_ok cd m c j \<longleftrightarrow>
     (let pos = unat (Uint64 (slice m (12 * j + 4) (12 * j + 12))) in
      pos + 8 \<le> length c \<and>
      (let len = unat (Uint64 (slice c pos (pos + 8))) in
       pos + 8 + len \<le> length c \<and>
       \<not> isl (Unmarshal cd (slice c (pos + 8) (pos + 8 + len)))))"

text \<open>
  The data of a segment: the index holds one entry per offset of the segment, inside
  the mapping; \<open>size\<close> of the store is the length of its content; file positions fit
  the signed 64-bit offsets of the operating system; the writer has no error; every
  entry is good.
\<close>

definition seg_inv :: "codec \<Rightarrow> segment \<Rightarrow> bool" where
  "seg_inv cd s \<longleftrightarrow>
     unat (size_i (index s)) = 12 * unat (nextOffset s - baseOffset s) \<and>
     unat (size_i (index s)) \<le> length (mmap (index s)) \<and>
     length (mmap (index s)) < 2 ^ 63 \<and>
     unat (size_s (store s)) = length (content (store s)) \<and>
     length (content (store s)) < 2 ^ 63 \<and>
     err_s (store s) = None \<and>
     (\<forall>j < unat (nextOffset s - baseOffset s). entry_ok cd (mmap (index s)) (content (store s)) j)"

definition log_inv :: "codec \<Rightarrow> Log \<Rightarrow> bool" where
  "log_inv cd l \<longleftrightarrow> shape_inv l \<and> list_all (seg_inv cd) (segments l)"

text \<open>The codec decodes what it encodes.\<close>

definition codec_ok :: "codec \<Rightarrow> bool" where
  "codec_ok cd \<longleftrightarrow> (\<forall>r p. Marshal cd r = Inr p \<longrightarrow> Unmarshal cd p = Inr r)"

text \<open>
  An append stays inside the machine integers: the offset it assigns is not the last
  64-bit value, and the store stays shorter than \<open>2^63\<close> bytes (the largest file
  offset).
\<close>

definition no_overflow :: "codec \<Rightarrow> Record \<Rightarrow> Log \<Rightarrow> bool" where
  "no_overflow cd r l \<longleftrightarrow>
     (let s = last (segments l) in
      nextOffset s \<noteq> - 1 \<and>
      (case Marshal cd (r\<lparr>Offset := nextOffset s\<rparr>) of
         Inl _ \<Rightarrow> True
       | Inr p \<Rightarrow> length (content (store s)) + 8 + length p < 2 ^ 63))"

text \<open>
  The logs reached from a log opened in an empty directory by appends (whatever they
  return), reads and truncations that return without an error.
\<close>

inductive reachable :: "codec \<Rightarrow> Log \<Rightarrow> bool" for cd :: codec where
  reach_new: "NewLog pdq [] c = Inr l \<Longrightarrow> reachable cd l"
| reach_append:
    "reachable cd l \<Longrightarrow> no_overflow cd r l \<Longrightarrow> Log_Append cd r l = (res, l') \<Longrightarrow> reachable cd l'"
| reach_read: "reachable cd l \<Longrightarrow> Log_Read cd off l = (rec, l') \<Longrightarrow> reachable cd l'"
| reach_truncate: "reachable cd l \<Longrightarrow> Truncate lowest l = (None, l') \<Longrightarrow> reachable cd l'"



section \<open>Basic facts\<close>

lemma storeName_neq_indexName [simp]:
  "storeName a \<noteq> indexName b" "indexName b \<noteq> storeName a"
proof -
  have "last (storeName a) \<noteq> last (indexName b)"
    by (simp add: storeName_def indexName_def)
  then show "storeName a \<noteq> indexName b" "indexName b \<noteq> storeName a" by auto
qed

lemma newSegment_fresh:
  "0 \<le> sint (MaxIndexBytes c) \<Longrightarrow> MaxIndexBytes c \<noteq> 0 \<Longrightarrow>
   newSegment [] [] b c =
     Inr \<lparr>store = newStore [], index = \<lparr>mmap = replicate (unat (MaxIndexBytes c)) 0, size_i = 0\<rparr>,
          baseOffset = b, nextOffset = b, config = c\<rparr>"
  by (simp add: newSegment_def newIndex_def os_Truncate_def index_Read_def unat_eq_zero)

lemma NewLog_empty_dir:
  "0 \<le> sint (MaxIndexBytes c) \<Longrightarrow> MaxIndexBytes c \<noteq> 0 \<Longrightarrow> MaxStoreBytes c \<noteq> 0 \<Longrightarrow>
   NewLog pdq [] c = Inr (fresh_log c)"
  by (simp add: NewLog_def Log_setup_def slices_SortFunc_def insertionSortCmpFunc_def
      Log_newSegment_def openFile_def newSegment_fresh newStore_def fresh_log_def)

lemma sample_config_ok:
  "0 \<le> sint (MaxIndexBytes (sample_config 12 b))" "MaxIndexBytes (sample_config 12 b) \<noteq> 0"
  "MaxStoreBytes (sample_config 12 b) \<noteq> 0"
  by (simp_all add: sample_config_def)

lemma sample_append:
  "Log_Append sample_codec (sample_record 2) (fresh_log (sample_config 12 0)) =
     ((0, None),
      \<lparr>Dir = [(''0.store'', []), (''0.index'', replicate 12 0),
               (''1.store'', []), (''1.index'', replicate 12 0)],
        Config = sample_config 12 0,
        activeSegment = 1,
        segments =
          [\<lparr>store = \<lparr>file_s = [],
                       buf_s = [0, 0, 0, 0, 0, 0, 0, 10, 0, 0, 0, 0, 0, 0, 0, 0, 7, 7],
                       err_s = None, size_s = 18\<rparr>,
             index = \<lparr>mmap = replicate 12 0, size_i = 12\<rparr>,
             baseOffset = 0, nextOffset = 1, config = sample_config 12 0\<rparr>,
           \<lparr>store = \<lparr>file_s = [], buf_s = [], err_s = None, size_s = 0\<rparr>,
             index = \<lparr>mmap = replicate 12 0, size_i = 0\<rparr>,
             baseOffset = 1, nextOffset = 1, config = sample_config 12 0\<rparr>]\<rparr>)"
  by code_simp

lemmas sample_log_eq = sample_log_def [unfolded sample_append snd_conv]

lemma segments_sample_log:
  "map baseOffset (segments sample_log) = [0, 1]" "map nextOffset (segments sample_log) = [1, 1]"
  "activeSegment sample_log = 1"
  by (simp_all add: sample_log_eq)

lemma sample_names:
  "storeName 0 = ''0.store''" "indexName 0 = ''0.index''"
  "storeName 1 = ''1.store''" "indexName 1 = ''1.index''"
  by (simp_all add: storeName_def indexName_def showDec.simps)

lemma sample_append2:
  "Log_Append sample_codec (sample_record 1) sample_log =
     ((1, None),
      \<lparr>Dir = [(''0.store'', []), (''0.index'', replicate 12 0),
               (''1.store'', []), (''1.index'', replicate 12 0),
               (''2.store'', []), (''2.index'', replicate 12 0)],
        Config = sample_config 12 0,
        activeSegment = 2,
        segments =
          [\<lparr>store = \<lparr>file_s = [],
                       buf_s = [0, 0, 0, 0, 0, 0, 0, 10, 0, 0, 0, 0, 0, 0, 0, 0, 7, 7],
                       err_s = None, size_s = 18\<rparr>,
             index = \<lparr>mmap = replicate 12 0, size_i = 12\<rparr>,
             baseOffset = 0, nextOffset = 1, config = sample_config 12 0\<rparr>,
           \<lparr>store = \<lparr>file_s = [],
                       buf_s = [0, 0, 0, 0, 0, 0, 0, 9, 0, 0, 0, 0, 0, 0, 0, 1, 7],
                       err_s = None, size_s = 17\<rparr>,
             index = \<lparr>mmap = replicate 12 0, size_i = 12\<rparr>,
             baseOffset = 1, nextOffset = 2, config = sample_config 12 0\<rparr>,
           \<lparr>store = \<lparr>file_s = [], buf_s = [], err_s = None, size_s = 0\<rparr>,
             index = \<lparr>mmap = replicate 12 0, size_i = 0\<rparr>,
             baseOffset = 2, nextOffset = 2, config = sample_config 12 0\<rparr>]\<rparr>)"
  unfolding sample_log_eq by code_simp

lemmas sample_log2_eq = sample_log2_def [unfolded sample_append2 snd_conv]

section \<open>File names determine base offsets\<close>









lemma names_below_delete: "names_below d b \<Longrightarrow> names_below (AList.delete k d) b"
  using dom_delete_subset [of k d] unfolding names_below_def by blast

section \<open>Truncation\<close>

lemma truncate_loop_kept:
  "truncate_loop lowest ss kept d = (None, segs, d') \<Longrightarrow>
     segs = kept @ filter (\<lambda>s. \<not> nextOffset s \<le> lowest) ss"
proof (induction ss arbitrary: kept d)
  case Nil
  then show ?case by simp
next
  case (Cons s ss)
  show ?case
  proof (cases "nextOffset s \<le> lowest")
    case True
    with Cons.prems obtain d1 where "truncate_loop lowest ss kept d1 = (None, segs, d')"
      by (auto split: option.splits prod.splits)
    from Cons.IH [OF this] True show ?thesis by simp
  next
    case False
    with Cons.prems have "truncate_loop lowest ss (kept @ [s]) d = (None, segs, d')" by simp
    from Cons.IH [OF this] False show ?thesis by simp
  qed
qed

lemma truncate_loop_error:
  "truncate_loop lowest ss kept d = (Some e, segs, d') \<Longrightarrow>
     \<exists>s \<in> set ss. nextOffset s \<le> lowest \<and> (\<exists>d1. segment_Remove s d1 = (Some e, d'))"
proof (induction ss arbitrary: kept d)
  case Nil
  then show ?case by simp
next
  case (Cons s ss)
  show ?case
  proof (cases "nextOffset s \<le> lowest")
    case True
    obtain r d1 where rm: "segment_Remove s d = (r, d1)" by (cases "segment_Remove s d") auto
    show ?thesis
    proof (cases r)
      case None
      with Cons.prems True rm have "truncate_loop lowest ss kept d1 = (Some e, segs, d')" by simp
      from Cons.IH [OF this] show ?thesis by auto
    next
      case (Some e')
      with Cons.prems True rm have "e' = e" "d1 = d'" by simp_all
      with Some rm True show ?thesis by auto
    qed
  next
    case False
    with Cons.prems have "truncate_loop lowest ss (kept @ [s]) d = (Some e, segs, d')" by simp
    from Cons.IH [OF this] show ?thesis by auto
  qed
qed

lemma Truncate_success:
  assumes "Truncate lowest l = (None, l')"
  shows "segments l' = filter (\<lambda>s. \<not> nextOffset s \<le> lowest) (segments l)"
    and "segments l' \<noteq> []"
    and "activeSegment l' = length (segments l') - 1"
    and "Config l' = Config l"
    and "\<exists>segs. truncate_loop lowest (segments l) [] (Dir l) = (None, segs, Dir l')"
proof -
  obtain r segs d where tl: "truncate_loop lowest (segments l) [] (Dir l) = (r, segs, d)"
    by (cases "truncate_loop lowest (segments l) [] (Dir l)") auto
  with assms have r: "r = None" and ne: "segs \<noteq> []"
    and l': "l' = l\<lparr>Dir := d, segments := segs, activeSegment := length segs - 1\<rparr>"
    by (auto simp: Truncate_def split: option.splits if_splits)
  from tl r have "segs = filter (\<lambda>s. \<not> nextOffset s \<le> lowest) (segments l)"
    using truncate_loop_kept [of lowest "segments l" "[]" "Dir l" segs d] by simp
  with ne l' tl r show "segments l' = filter (\<lambda>s. \<not> nextOffset s \<le> lowest) (segments l)"
    and "segments l' \<noteq> []" and "activeSegment l' = length (segments l') - 1"
    and "Config l' = Config l"
    and "\<exists>segs. truncate_loop lowest (segments l) [] (Dir l) = (None, segs, Dir l')"
    by simp_all
qed

text \<open>
  C4 as amended.  When \<open>Truncate lowest\<close> returns without an error, the segments of the
  log are exactly the former segments whose \<open>nextOffset\<close> is above \<open>lowest\<close>, in their
  former order, and \<open>activeSegment\<close> points at the last of them.
\<close>

theorem Truncate_removes_exactly:
  assumes "Truncate lowest l = (None, l')"
  shows "segments l' = filter (\<lambda>s. \<not> nextOffset s \<le> lowest) (segments l)
         \<and> activeSegment l' < length (segments l')
         \<and> segments l' ! activeSegment l' = last (segments l')"
  using Truncate_success(1-3) [OF assms] by (simp add: last_conv_nth)

theorem Truncate_removes_exactly_witness:
  "fst (Truncate 1 sample_log2) = None
   \<and> map baseOffset (segments sample_log2) = [0, 1, 2]
   \<and> map baseOffset (segments (snd (Truncate 1 sample_log2))) = [1, 2]
   \<and> activeSegment (snd (Truncate 1 sample_log2)) < 2"
proof -
  let ?X = "snd (Truncate 1 sample_log2)"
  have t: "fst (Truncate 1 sample_log2) = None"
    unfolding sample_log2_eq by code_simp
  then have "Truncate 1 sample_log2 = (None, ?X)"
    by (simp add: prod_eq_iff)
  from Truncate_removes_exactly [OF this]
  have eq: "segments ?X = filter (\<lambda>s. \<not> nextOffset s \<le> 1) (segments sample_log2)"
    and a: "activeSegment ?X < length (segments ?X)"
    by blast+
  have m: "map baseOffset (segments sample_log2) = [0, 1, 2]"
    and m2: "map baseOffset (filter (\<lambda>s. \<not> nextOffset s \<le> 1) (segments sample_log2)) = [1, 2]"
    and len: "length (filter (\<lambda>s. \<not> nextOffset s \<le> 1) (segments sample_log2)) = 2"
    by (simp_all add: sample_log2_eq word_le_nat_alt)
  from a have "activeSegment ?X < 2" unfolding eq len .
  moreover from m2 have "map baseOffset (segments ?X) = [1, 2]" unfolding eq .
  ultimately show ?thesis using t m by blast
qed

text \<open>
  C4 as stated fails.  When the removal of a segment fails, \<open>Truncate\<close> returns the
  error and the list of segments stays as it was: with the files gone from the
  directory, \<open>Truncate 1\<close> keeps the segment \<open>[0, 1)\<close>.  And when every segment ends at
  or below \<open>lowest\<close>, no segment remains to become the active one: \<open>Truncate 2\<close> on the
  segments \<open>[0, 1)\<close>, \<open>[1, 2)\<close>, \<open>[2, 2)\<close> panics.
\<close>

theorem Truncate_not_total_counterexample:
  "fst (Truncate 1 (sample_log2\<lparr>Dir := []\<rparr>)) = Some ErrNotExist
   \<and> map nextOffset (segments (snd (Truncate 1 (sample_log2\<lparr>Dir := []\<rparr>)))) = [1, 2, 2]
   \<and> fst (Truncate 2 sample_log2) = Some Panic
   \<and> segments (snd (Truncate 2 sample_log2)) = []"
  unfolding sample_log2_eq by code_simp

text \<open>
  C9 (the code departs from the claim).  On the fresh log of an empty directory
  (one empty segment, \<open>nextOffset = 0\<close>), \<open>Truncate 0\<close> removes the only segment and
  then panics on \<open>l.segments[len(l.segments)-1]\<close>.
\<close>

theorem Truncate_all_segments_panics:
  "and_then (NewLog no_pdq [] (sample_config 12 0)) (fst \<circ> Truncate 0) = Inr (Some Panic)"
proof -
  have "fst (Truncate 0 (fresh_log (sample_config 12 0))) = Some Panic"
    by code_simp
  then show ?thesis
    by (simp add: NewLog_empty_dir sample_config_ok and_then_def)
qed

section \<open>Offsets of the log\<close>

text \<open>
  C7 as amended.  \<open>HighestOffset\<close> looks at the \<open>nextOffset\<close> of the last segment only:
  it returns \<open>0\<close> when that is \<open>0\<close> and \<open>nextOffset - 1\<close> otherwise, whether or not the
  log holds a record.
\<close>

theorem HighestOffset_value:
  assumes "segments l \<noteq> []"
  shows "HighestOffset l =
          Inr (if nextOffset (last (segments l)) = 0 then 0 else nextOffset (last (segments l)) - 1)"
  using assms by (simp add: HighestOffset_def Let_def last_conv_nth)

theorem HighestOffset_value_witness:
  "HighestOffset (fresh_log (sample_config 12 5)) = Inr 4"
  using HighestOffset_value [of "fresh_log (sample_config 12 5)"]
  by (simp add: fresh_log_def sample_config_def)

text \<open>
  C7 as stated fails: the empty log opened in an empty directory with
  \<open>InitialOffset = 5\<close> reports \<open>4\<close>, not \<open>0\<close>.
\<close>

theorem HighestOffset_empty_log_counterexample:
  "and_then (NewLog no_pdq [] (sample_config 12 5)) HighestOffset = Inr (Inr 4)
   \<and> and_then (NewLog no_pdq [] (sample_config 12 5)) HighestOffset \<noteq> Inr (Inr 0)"
  by (simp add: NewLog_empty_dir sample_config_ok fresh_log_def sample_config_def and_then_def
      HighestOffset_def)

section \<open>Reading\<close>

lemma find_segment_None:
  "\<forall>s\<in>set ss. \<not> (baseOffset s \<le> offset \<and> offset < nextOffset s)
     \<Longrightarrow> find_segment offset ss k = None"
  by (induction ss arbitrary: k) auto

text \<open>
  C8.  When no segment covers the offset, \<open>Log.Read\<close> returns the out-of-range error
  that carries the offset, and the log is as it was.
\<close>

theorem Read_out_of_range:
  assumes "\<forall>s\<in>set (segments l). \<not> (baseOffset s \<le> offset \<and> offset < nextOffset s)"
  shows "Log_Read cd offset l = (Inl (ErrOffsetOutOfRange offset), l)"
  using find_segment_None [OF assms] by (simp add: Log_Read_def)

theorem Read_out_of_range_witness:
  "Log_Read sample_codec 0 (fresh_log (sample_config 12 0))
     = (Inl (ErrOffsetOutOfRange 0), fresh_log (sample_config 12 0))"
  using Read_out_of_range [of "fresh_log (sample_config 12 0)" 0 sample_codec]
  by (simp add: fresh_log_def sample_config_def)

section \<open>Appending to a segment\<close>

lemma segment_Append_result:
  "segment_Append cd r s = (res, s') \<Longrightarrow>
     (case res of Inl e \<Rightarrow> nextOffset s' = nextOffset s
                | Inr off \<Rightarrow> off = nextOffset s \<and> nextOffset s' = nextOffset s + 1)
     \<and> baseOffset s' = baseOffset s \<and> config s' = config s"
  by (auto simp: segment_Append_def Let_def split: sum.splits prod.splits)

text \<open>
  C10.  When \<open>segment.Append\<close> returns an error, \<open>nextOffset\<close> is what it was, and any
  later append to the segment that succeeds returns that offset.
\<close>

theorem failed_append_keeps_nextOffset:
  assumes "fst (segment_Append cd r s) = Inl e"
  shows "nextOffset (snd (segment_Append cd r s)) = nextOffset s
         \<and> (\<forall>r' off. fst (segment_Append cd r' (snd (segment_Append cd r s))) = Inr off
               \<longrightarrow> off = nextOffset s)"
proof -
  obtain res s' where a: "segment_Append cd r s = (res, s')"
    by (cases "segment_Append cd r s") auto
  with assms have n: "nextOffset s' = nextOffset s"
    using segment_Append_result [OF a] by simp
  have "off = nextOffset s'" if h: "fst (segment_Append cd r' s') = Inr off" for r' off
  proof -
    have "segment_Append cd r' s' = (Inr off, snd (segment_Append cd r' s'))"
      using h by (simp add: prod_eq_iff)
    from segment_Append_result [OF this] show ?thesis by simp
  qed
  with a n show ?thesis by simp
qed

theorem failed_append_keeps_nextOffset_witness:
  "fst (segment_Append sample_codec (sample_record 256) (segments (fresh_log (sample_config 12 5)) ! 0))
     = Inl ErrCodec
   \<and> nextOffset (snd (segment_Append sample_codec (sample_record 256)
                         (segments (fresh_log (sample_config 12 5)) ! 0))) = 5
   \<and> fst (segment_Append sample_codec (sample_record 2)
            (snd (segment_Append sample_codec (sample_record 256)
                    (segments (fresh_log (sample_config 12 5)) ! 0)))) = Inr 5"
proof -
  let ?s = "segments (fresh_log (sample_config 12 5)) ! 0"
  let ?s' = "snd (segment_Append sample_codec (sample_record 256) ?s)"
  have f: "fst (segment_Append sample_codec (sample_record 256) ?s) = Inl ErrCodec"
    by (simp add: segment_Append_def sample_codec_def sample_record_def)
  have n: "nextOffset ?s = 5"
    by (simp add: fresh_log_def sample_config_def)
  have "\<exists>off. fst (segment_Append sample_codec (sample_record 2) ?s') = Inr off"
    by (simp add: segment_Append_def sample_codec_def sample_record_def store_Append_def
        bufio_Write_def index_Write_def fresh_log_def sample_config_def newStore_def
        entWidth_def offWidth_def posWidth_def Let_def)
  then obtain off where g: "fst (segment_Append sample_codec (sample_record 2) ?s') = Inr off" ..
  from failed_append_keeps_nextOffset [OF f] g n
  have "nextOffset ?s' = 5" and "off = 5" by auto
  with f g show ?thesis by simp
qed

section \<open>Opening an index and a directory\<close>

text \<open>
  C5 (the code departs from the claim).  An index file of two entries (24 bytes)
  opened with \<open>MaxIndexBytes = 12\<close> is cut to its first entry while \<open>size\<close> stays 24,
  and \<open>newSegment\<close> then panics in \<open>index.Read(-1)\<close>, which slices the mapping
  beyond its end.
\<close>

theorem newIndex_shrinks_file:
  "newIndex (PutUint32 0 @ PutUint64 0 @ PutUint32 1 @ PutUint64 19) (sample_config 12 0)
     = Inr \<lparr>mmap = PutUint32 0 @ PutUint64 0, size_i = 24\<rparr>
   \<and> newSegment [] (PutUint32 0 @ PutUint64 0 @ PutUint32 1 @ PutUint64 19) 0 (sample_config 12 0)
     = Inl Panic"
  by code_simp

text \<open>
  C6 (the code departs from the claim).  A stray file \<open>notes.txt\<close> next to the two
  files of segment 0 is parsed as base offset 0, and the loop that skips every second
  entry then builds two segments with base offset 0.  With the base offsets 0 and
  \<open>2^63\<close> the comparison \<open>int(i - j)\<close> overflows and the segments come out in
  descending order.
\<close>

theorem setup_duplicates_and_disorder:
  "and_then (NewLog no_pdq [(''0.index'', []), (''0.store'', []), (''notes.txt'', [])]
               (sample_config 12 0))
          (map baseOffset \<circ> segments) = Inr [0, 0]
   \<and> and_then (NewLog no_pdq [(''0.index'', []), (''0.store'', []),
                 (''9223372036854775808.index'', []), (''9223372036854775808.store'', [])]
               (sample_config 12 0))
          (map baseOffset \<circ> segments) = Inr [9223372036854775808, 0]"
proof -
  have parse:
    "fst (ParseUint (TrimSuffix ''0.index'' (path_Ext ''0.index''))) = 0"
    "fst (ParseUint (TrimSuffix ''0.store'' (path_Ext ''0.store''))) = 0"
    "fst (ParseUint (TrimSuffix ''notes.txt'' (path_Ext ''notes.txt''))) = 0"
    "fst (ParseUint (TrimSuffix ''9223372036854775808.index'' (path_Ext ''9223372036854775808.index'')))
       = 9223372036854775808"
    "fst (ParseUint (TrimSuffix ''9223372036854775808.store'' (path_Ext ''9223372036854775808.store'')))
       = 9223372036854775808"
    by code_simp+
  have sort:
    "slices_SortFunc no_pdq (\<lambda>i j. sint (i - j)) [0, 0, 0 :: 64 word] = [0, 0, 0]"
    "slices_SortFunc no_pdq (\<lambda>i j. sint (i - j))
        [0, 0, 9223372036854775808, 9223372036854775808 :: 64 word]
      = [9223372036854775808, 9223372036854775808, 0, 0]"
    by code_simp+
  have names:
    "storeName 9223372036854775808 = ''9223372036854775808.store''"
    "indexName 9223372036854775808 = ''9223372036854775808.index''"
    by (simp_all add: storeName_def indexName_def showDec.simps)
  have open0: "newSegment [] (replicate 12 0) 0 (sample_config 12 0)
     = Inr \<lparr>store = newStore [], index = \<lparr>mmap = replicate 12 0, size_i = 12\<rparr>,
          baseOffset = 0, nextOffset = 1, config = sample_config 12 0\<rparr>"
    by code_simp
  have sel: "MaxIndexBytes (sample_config 12 0) = 12" "file_s (newStore []) = []"
    by (simp_all add: sample_config_def newStore_def)
  have a: "and_then (NewLog no_pdq [(''0.index'', []), (''0.store'', []), (''notes.txt'', [])]
               (sample_config 12 0))
          (map baseOffset \<circ> segments) = Inr [0, 0]"
    by (simp add: and_then_def NewLog_def Log_setup_def sample_config_ok parse sort sample_names
        Log_newSegment_def openFile_def newSegment_fresh open0 sel Let_def)
  have b: "and_then (NewLog no_pdq [(''0.index'', []), (''0.store'', []),
                 (''9223372036854775808.index'', []), (''9223372036854775808.store'', [])]
               (sample_config 12 0))
          (map baseOffset \<circ> segments) = Inr [9223372036854775808, 0]"
    by (simp add: and_then_def NewLog_def Log_setup_def sample_config_ok parse sort names sample_names
        Log_newSegment_def openFile_def newSegment_fresh sel Let_def)
  from a b show ?thesis by simp
qed


section \<open>Chains of segments\<close>

lemma contiguous_nth:
  "contiguous ss \<longleftrightarrow> (\<forall>k. Suc k < length ss \<longrightarrow> baseOffset (ss ! Suc k) = nextOffset (ss ! k))"
proof (induction ss rule: contiguous.induct)
  case 1
  show ?case by simp
next
  case (2 s)
  show ?case by simp
next
  case (3 s t ss)
  show ?case
  proof
    assume a: "contiguous (s # t # ss)"
    show "\<forall>k. Suc k < length (s # t # ss) \<longrightarrow>
            baseOffset ((s # t # ss) ! Suc k) = nextOffset ((s # t # ss) ! k)"
    proof (intro allI impI)
      fix k assume k: "Suc k < length (s # t # ss)"
      show "baseOffset ((s # t # ss) ! Suc k) = nextOffset ((s # t # ss) ! k)"
      proof (cases k)
        case 0
        with a show ?thesis by simp
      next
        case (Suc j)
        with a k 3 show ?thesis by simp
      qed
    qed
  next
    assume a: "\<forall>k. Suc k < length (s # t # ss) \<longrightarrow>
            baseOffset ((s # t # ss) ! Suc k) = nextOffset ((s # t # ss) ! k)"
    from a [rule_format, of 0] have "baseOffset t = nextOffset s" by simp
    moreover have "baseOffset ((t # ss) ! Suc k) = nextOffset ((t # ss) ! k)"
      if "Suc k < length (t # ss)" for k
      using a [rule_format, of "Suc k"] that by simp
    ultimately show "contiguous (s # t # ss)" using 3 by simp
  qed
qed

lemma chain_mono:
  assumes "list_all (\<lambda>s. baseOffset s \<le> nextOffset s) ss" and "contiguous ss"
  shows "i < j \<Longrightarrow> j < length ss \<Longrightarrow> nextOffset (ss ! i) \<le> baseOffset (ss ! j)"
proof (induction j)
  case 0
  then show ?case by simp
next
  case (Suc j)
  from assms(2) Suc.prems have c: "baseOffset (ss ! Suc j) = nextOffset (ss ! j)"
    by (simp add: contiguous_nth)
  show ?case
  proof (cases "i = j")
    case True
    with c show ?thesis by simp
  next
    case False
    with Suc have "nextOffset (ss ! i) \<le> baseOffset (ss ! j)" by simp
    also from assms(1) Suc.prems have "baseOffset (ss ! j) \<le> nextOffset (ss ! j)"
      by (simp add: list_all_length)
    finally show ?thesis using c by simp
  qed
qed

lemma chain_next_mono:
  assumes "list_all (\<lambda>s. baseOffset s \<le> nextOffset s) ss" and "contiguous ss"
    and "i \<le> j" and "j < length ss"
  shows "nextOffset (ss ! i) \<le> nextOffset (ss ! j)"
proof (cases "i = j")
  case True
  then show ?thesis by simp
next
  case False
  with assms have "nextOffset (ss ! i) \<le> baseOffset (ss ! j)" by (simp add: chain_mono)
  also from assms have "baseOffset (ss ! j) \<le> nextOffset (ss ! j)" by (simp add: list_all_length)
  finally show ?thesis .
qed

lemma contiguous_tail: "contiguous (s # ss) \<Longrightarrow> contiguous ss"
  by (cases ss) simp_all

lemma chain_head_least:
  assumes "list_all (\<lambda>s. baseOffset s \<le> nextOffset s) (s # ss)" and "contiguous (s # ss)"
    and "t \<in> set ss"
  shows "nextOffset s \<le> nextOffset t"
proof -
  from assms(3) obtain k where k: "k < length ss" "t = ss ! k"
    by (auto simp: in_set_conv_nth)
  have "nextOffset ((s # ss) ! 0) \<le> nextOffset ((s # ss) ! Suc k)"
    using assms(1,2) by (rule chain_next_mono) (use k in simp_all)
  with k show ?thesis by simp
qed

text \<open>The segments that a truncation keeps are a final part of the chain.\<close>

lemma filter_chain_drop:
  assumes "list_all (\<lambda>s. baseOffset s \<le> nextOffset s) ss" and "contiguous ss"
  shows "\<exists>m. filter (\<lambda>s. \<not> nextOffset s \<le> lowest) ss = drop m ss"
  using assms
proof (induction ss)
  case Nil
  show ?case by simp
next
  case (Cons s ss)
  show ?case
  proof (cases "nextOffset s \<le> lowest")
    case True
    from Cons.prems have "list_all (\<lambda>s. baseOffset s \<le> nextOffset s) ss" "contiguous ss"
      by (simp_all add: contiguous_tail)
    with Cons.IH obtain m where "filter (\<lambda>s. \<not> nextOffset s \<le> lowest) ss = drop m ss"
      by blast
    with True have "filter (\<lambda>s. \<not> nextOffset s \<le> lowest) (s # ss) = drop (Suc m) (s # ss)"
      by simp
    then show ?thesis by blast
  next
    case False
    have "\<not> nextOffset t \<le> lowest" if "t \<in> set ss" for t
    proof -
      from Cons.prems that have "nextOffset s \<le> nextOffset t" by (rule chain_head_least)
      with False show ?thesis by auto
    qed
    then have "filter (\<lambda>s. \<not> nextOffset s \<le> lowest) ss = ss"
      by (simp add: filter_id_conv)
    with False have "filter (\<lambda>s. \<not> nextOffset s \<le> lowest) (s # ss) = drop 0 (s # ss)"
      by simp
    then show ?thesis by blast
  qed
qed

lemma contiguous_drop: "contiguous ss \<Longrightarrow> contiguous (drop m ss)"
  by (auto simp: contiguous_nth)



section \<open>Arithmetic of offsets\<close>




section \<open>The shape of the log is kept\<close>

lemma names_below_write_back: "names_below d b \<Longrightarrow> names_below (write_back d k v) b"
proof -
  assume n: "names_below d b"
  show ?thesis
  proof (cases "map_of d k")
    case None
    with n show ?thesis by (simp add: write_back_def)
  next
    case (Some x)
    then have "k \<in> fst ` set d" by (metis map_of_eq_None_iff option.distinct(1))
    then have "fst ` set (AList.update k v d) = fst ` set d" by (auto simp: dom_update)
    with n Some show ?thesis by (simp add: write_back_def names_below_def)
  qed
qed

lemma segment_Remove_names:
  "names_below d b \<Longrightarrow> segment_Remove s d = (r, d') \<Longrightarrow> names_below d' b"
  by (auto simp: segment_Remove_def segment_Close_def os_Remove_def Let_def
      intro!: names_below_write_back names_below_delete
      split: sum.splits option.splits prod.splits if_splits)

lemma truncate_loop_names:
  "names_below d b \<Longrightarrow> truncate_loop lowest ss kept d = (r, segs, d') \<Longrightarrow> names_below d' b"
proof (induction ss arbitrary: kept d)
  case Nil
  then show ?case by simp
next
  case (Cons s ss)
  show ?case
  proof (cases "nextOffset s \<le> lowest")
    case True
    obtain e d1 where rm: "segment_Remove s d = (e, d1)" by (cases "segment_Remove s d") auto
    with Cons.prems(1) have n1: "names_below d1 b" by (rule segment_Remove_names)
    show ?thesis
    proof (cases e)
      case None
      with Cons.prems(2) True rm have "truncate_loop lowest ss kept d1 = (r, segs, d')" by simp
      with n1 show ?thesis by (rule Cons.IH)
    next
      case (Some e')
      with Cons.prems(2) True rm have "d' = d1" by simp
      with n1 show ?thesis by simp
    qed
  next
    case False
    with Cons.prems(2) have "truncate_loop lowest ss (kept @ [s]) d = (r, segs, d')" by simp
    with Cons.prems(1) show ?thesis by (rule Cons.IH)
  qed
qed







lemma shape_inv_cong:
  assumes "shape_inv l"
    and "length (segments l') = length (segments l)"
    and "\<And>i. i < length (segments l) \<Longrightarrow>
           baseOffset (segments l' ! i) = baseOffset (segments l ! i)
           \<and> nextOffset (segments l' ! i) = nextOffset (segments l ! i)"
    and "Dir l' = Dir l" and "activeSegment l' = activeSegment l"
  shows "shape_inv l'"
proof -
  from assms(1) have ne: "segments l \<noteq> []" and a: "activeSegment l = length (segments l) - 1"
    and o: "list_all (\<lambda>s. baseOffset s \<le> nextOffset s) (segments l)"
    and c: "contiguous (segments l)"
    and n: "names_below (Dir l) (baseOffset (last (segments l)))"
    by (simp_all add: shape_inv_def)
  from ne assms(2) have ne': "segments l' \<noteq> []" by auto
  from ne ne' assms(2) have "last (segments l') = segments l' ! (length (segments l) - 1)"
    and "last (segments l) = segments l ! (length (segments l) - 1)"
    by (simp_all add: last_conv_nth)
  with assms(3) [of "length (segments l) - 1"] ne
  have lb: "baseOffset (last (segments l')) = baseOffset (last (segments l))" by simp
  from o assms(2,3) have o': "list_all (\<lambda>s. baseOffset s \<le> nextOffset s) (segments l')"
    by (simp add: list_all_length)
  from c assms(2,3) have c': "contiguous (segments l')"
    by (simp add: contiguous_nth)
  from ne' a o' c' n lb assms(2,4,5) show ?thesis by (simp add: shape_inv_def)
qed





lemma Truncate_shape:
  assumes "shape_inv l" and "Truncate lowest l = (None, l')"
  shows "shape_inv l'"
proof -
  let ?ss = "segments l"
  from assms(1) have o: "list_all (\<lambda>s. baseOffset s \<le> nextOffset s) ?ss"
    and c: "contiguous ?ss"
    and n: "names_below (Dir l) (baseOffset (last ?ss))"
    by (simp_all add: shape_inv_def)
  note t = Truncate_success [OF assms(2)]
  from filter_chain_drop [OF o c] t(1) obtain m where m: "segments l' = drop m ?ss" by metis
  with t(2) have lt: "m < length ?ss" by simp
  then have la: "last (segments l') = last ?ss" using m by simp
  from o have o': "list_all (\<lambda>s. baseOffset s \<le> nextOffset s) (drop m ?ss)"
    by (auto simp: list_all_iff dest: in_set_dropD)
  from c have c': "contiguous (drop m ?ss)" by (rule contiguous_drop)
  from t(5) obtain segs where "truncate_loop lowest ?ss [] (Dir l) = (None, segs, Dir l')" ..
  with n have n': "names_below (Dir l') (baseOffset (last ?ss))" by (rule truncate_loop_names)
  from t(2,3) o' c' n' la m show ?thesis by (simp add: shape_inv_def)
qed

lemma segment_Read_frame:
  assumes "segment_Read cd off s = (res, s')"
  shows "baseOffset s' = baseOffset s" "nextOffset s' = nextOffset s" "index s' = index s"
    "config s' = config s" "content (store s') = content (store s)"
    "size_s (store s') = size_s (store s)" "err_s (store s') = err_s (store s)"
  using assms
  by (auto simp: segment_Read_def store_Read_def bufio_Flush_def content_def Let_def
      split: sum.splits prod.splits option.splits)

lemma Log_Read_cases:
  assumes "Log_Read cd off l = (res, l')"
  obtains (out) "l' = l" "res = Inl (ErrOffsetOutOfRange off)"
  | (found) k s' where "k < length (segments l)" "find_segment off (segments l) 0 = Some k"
      "segment_Read cd off (segments l ! k) = (res, s')" "l' = l\<lparr>segments := (segments l)[k := s']\<rparr>"
proof -
  have fk: "k0 \<le> k \<and> k < k0 + length ss" if "find_segment off ss k0 = Some k" for ss k0 k
    using that
  proof (induction ss arbitrary: k0)
    case Nil
    then show ?case by simp
  next
    case (Cons a ss)
    show ?case
    proof (cases "baseOffset a \<le> off \<and> off < nextOffset a")
      case True
      with Cons.prems show ?thesis by simp
    next
      case False
      with Cons.prems have "find_segment off ss (Suc k0) = Some k" by auto
      from Cons.IH [OF this] show ?thesis by simp
    qed
  qed
  show thesis
  proof (cases "find_segment off (segments l) 0")
    case None
    with assms show ?thesis by (intro out) (simp_all add: Log_Read_def)
  next
    case (Some k)
    with fk [of "segments l" 0 k] have k: "k < length (segments l)" by simp
    show ?thesis
    proof (cases "nextOffset (segments l ! k) \<le> off")
      case True
      with assms Some show ?thesis by (intro out) (simp_all add: Log_Read_def)
    next
      case False
      obtain r0 s' where sr: "segment_Read cd off (segments l ! k) = (r0, s')"
        by (cases "segment_Read cd off (segments l ! k)") auto
      with assms Some False k show ?thesis
        by (intro found [of k s']) (simp_all add: Log_Read_def)
    qed
  qed
qed

lemma Log_Read_shape:
  assumes "shape_inv l" and "Log_Read cd off l = (res, l')"
  shows "shape_inv l'" and "Config l' = Config l"
proof -
  have "shape_inv l' \<and> Config l' = Config l"
    using assms(2)
  proof (cases rule: Log_Read_cases)
    case out
    with assms(1) show ?thesis by simp
  next
    case (found k s')
    note f = segment_Read_frame [OF found(3)]
    have "shape_inv l'"
      using assms(1)
    proof (rule shape_inv_cong)
      show "length (segments l') = length (segments l)" using found(4) by simp
      show "Dir l' = Dir l" "activeSegment l' = activeSegment l" using found(4) by simp_all
      show "baseOffset (segments l' ! i) = baseOffset (segments l ! i)
           \<and> nextOffset (segments l' ! i) = nextOffset (segments l ! i)"
        if "i < length (segments l)" for i
        using that found(4) f(1,2) by (cases "i = k") simp_all
    qed
    with found(4) show ?thesis by simp
  qed
  then show "shape_inv l'" and "Config l' = Config l" by simp_all
qed

section \<open>Offsets returned by appends\<close>







end
